theory Spec2Isabelle
  imports Main
begin

unbundle bit_operations_syntax

section \<open>Documents, ranges and changes\<close>

text \<open>
  Offsets are JavaScript numbers that the editor only ever uses as integers; they are
  modelled as \<open>int\<close>. A string's \<open>length\<close> is the number of its code units, the
  length of the list that models it.
\<close>

text \<open>
  Modelled from the spec: the document class \<open>Text\<close> (imported from the doc package) is
  not among the sources. The spec asks of it \<open>length\<close>, \<open>slice(from, to)\<close> and
  \<open>replace(from, to, text)\<close> on an immutable sequence; a document is modelled as the
  sequence of its code units. The spec fixes these operations for
  \<open>0 \<le> from \<le> to \<le> length\<close>; outside that the model clamps negative offsets to 0.
\<close>

type_synonym Text = string

definition Text_length :: "Text \<Rightarrow> int" where
  "Text_length d = int (length d)"

definition Text_slice :: "Text \<Rightarrow> int \<Rightarrow> int \<Rightarrow> string" where
  "Text_slice d lo hi = take (nat hi - nat lo) (drop (nat lo) d)"

definition Text_replace :: "Text \<Rightarrow> int \<Rightarrow> int \<Rightarrow> string \<Rightarrow> Text" where
  "Text_replace d lo hi s = take (nat lo) d @ s @ drop (nat hi) d"

text \<open>Class \<open>Range\<close>: \<open>anchor\<close> and \<open>head\<close>, with the getters \<open>from\<close>, \<open>to\<close>, \<open>empty\<close>.\<close>

datatype Range = Range (anchor: int) (head: int)

definition Range_from :: "Range \<Rightarrow> int" where
  "Range_from r = min (anchor r) (head r)"

definition Range_to :: "Range \<Rightarrow> int" where
  "Range_to r = max (anchor r) (head r)"

definition Range_empty :: "Range \<Rightarrow> bool" where
  "Range_empty r = (anchor r = head r)"

definition Range_eq :: "Range \<Rightarrow> Range \<Rightarrow> bool" where
  "Range_eq r other = (anchor r = anchor other \<and> head r = head other)"

text \<open>Class \<open>Change\<close>: the fields \<open>from\<close>, \<open>to\<close> and \<open>text\<close>.\<close>

datatype Change = Change (changeFrom: int) (changeTo: int) (changeText: string)

text \<open>
  \<open>Change.mapPos(pos, bias = 1)\<close>, branch by branch. A call without the bias argument is
  \<open>mapPos c pos 1\<close>.
\<close>

definition mapPos :: "Change \<Rightarrow> int \<Rightarrow> int \<Rightarrow> int" where
  "mapPos c pos bias =
     (if pos < changeFrom c \<or> (bias < 0 \<and> pos = changeFrom c) then pos
      else if pos > changeTo c
        then pos + int (length (changeText c)) - (changeTo c - changeFrom c)
      else
        let side = (if changeFrom c = changeTo c then bias
                    else if pos = changeFrom c then - 1
                    else if pos = changeTo c then 1
                    else bias)
        in changeFrom c + (if side < 0 then 0 else int (length (changeText c))))"

definition Change_invert :: "Change \<Rightarrow> Text \<Rightarrow> Change" where
  "Change_invert c d =
     Change (changeFrom c) (changeFrom c + int (length (changeText c)))
       (Text_slice d (changeFrom c) (changeTo c))"

definition Change_apply :: "Change \<Rightarrow> Text \<Rightarrow> Text" where
  "Change_apply c d = Text_replace d (changeFrom c) (changeTo c) (changeText c)"

text \<open>
  \<open>Range.map(change)\<close>: both ends go through \<open>mapPos\<close> with the default bias; the
  receiver itself is returned when neither end moved.
\<close>

definition Range_map :: "Range \<Rightarrow> Change \<Rightarrow> Range" where
  "Range_map r c =
     (let a = mapPos c (anchor r) 1; h = mapPos c (head r) 1
      in if a = anchor r \<and> h = head r then r else Range a h)"

text \<open>Class \<open>Selection\<close>: an array of ranges.\<close>

datatype Selection = Selection (ranges: "Range list")

definition Selection_map :: "Selection \<Rightarrow> Change \<Rightarrow> Selection" where
  "Selection_map s c = Selection (map (\<lambda>r. Range_map r c) (ranges s))"

fun ranges_eq :: "Range list \<Rightarrow> Range list \<Rightarrow> bool" where
  "ranges_eq [] [] = True"
| "ranges_eq (r # rs) (q # qs) = (if \<not> Range_eq r q then False else ranges_eq rs qs)"
| "ranges_eq _ _ = False"

definition Selection_eq :: "Selection \<Rightarrow> Selection \<Rightarrow> bool" where
  "Selection_eq s other =
     (if length (ranges s) \<noteq> length (ranges other) then False
      else ranges_eq (ranges s) (ranges other))"

definition Selection_primary :: "Selection \<Rightarrow> Range option" where
  "Selection_primary s = (case ranges s of [] \<Rightarrow> None | r # _ \<Rightarrow> Some r)"

definition Selection_default :: Selection where
  "Selection_default = Selection [Range 0 0]"

section \<open>State fields, plugins and configurations\<close>

text \<open>
  An \<open>EditorState\<close> object has the properties \<open>config\<close>, \<open>doc\<close> and \<open>selection\<close>, and one
  further property per state field, stored under the field's key
  (\<open>state[field.key] = ...\<close>); \<open>fieldVals\<close> is that part of the object, a key without a
  value being a property that reads \<open>undefined\<close>. A \<open>Transaction\<close> has the constructor's
  six properties (\<open>trSelection\<close> is its \<open>selection\<close>).

  A state field's \<open>init\<close> and \<open>apply\<close> receive states and transactions that reach, through
  \<open>config\<close>, the very list of fields they belong to. A HOL type cannot contain functions
  over itself, so both records take the type of \<open>config\<close> as a parameter, and a field's
  functions receive the state and the transaction with \<open>config\<close> blanked
  (\<open>viewState\<close>, \<open>viewTransaction\<close>): they read documents, selections, changes, metadata,
  flags and field values, and nothing of the configuration.
\<close>

datatype error = Error string | RangeError string

record ('c, 'v) EditorState =
  config :: 'c
  doc :: Text
  selection :: Selection
  fieldVals :: "string \<rightharpoonup> 'v"

text \<open>
  The values of the metadata table: numbers and booleans, as the three predefined slots
  hold them, and \<open>MetaConstructor\<close>, the class \<open>Meta\<close> itself, which every \<open>Meta\<close> object
  inherits from its prototype as the property \<open>constructor\<close> (the prototype's own
  prototype is \<open>null\<close>, so nothing else is inherited).
\<close>

datatype MetaValue = MetaNumber int | MetaBoolean bool | MetaConstructor

record ('c, 'v) Transaction =
  startState :: "('c, 'v) EditorState"
  changes :: "Change list"
  docs :: "Text list"
  trSelection :: Selection
  meta :: "string \<rightharpoonup> MetaValue"
  flags :: int

definition viewState :: "('c, 'v) EditorState \<Rightarrow> (unit, 'v) EditorState" where
  "viewState s =
     \<lparr>config = (), doc = doc s, selection = selection s, fieldVals = fieldVals s\<rparr>"

definition viewTransaction :: "('c, 'v) Transaction \<Rightarrow> (unit, 'v) Transaction" where
  "viewTransaction tr =
     \<lparr>startState = viewState (startState tr), changes = changes tr, docs = docs tr,
      trSelection = trSelection tr, meta = meta tr, flags = flags tr\<rparr>"

text \<open>
  Class \<open>StateField\<close>. Its constructor draws \<open>key\<close> from \<open>unique\<close>, which never hands out
  a name twice, so two field objects never share a key: a field object is identified
  with its key, and \<open>fields.indexOf(field) > -1\<close> is membership of the key.
  \<open>applyRule\<close> is the property \<open>apply\<close>; its second argument is the property read from the
  start state, which may be \<open>undefined\<close>.
\<close>

record 'v StateField =
  key :: string
  init :: "(unit, 'v) EditorState \<Rightarrow> 'v"
  applyRule :: "(unit, 'v) Transaction \<Rightarrow> 'v option \<Rightarrow> (unit, 'v) EditorState \<Rightarrow> 'v"

text \<open>
  Class \<open>Plugin\<close>: \<open>stateField\<close> is the \<open>state\<close> of the constructor's argument, or \<open>null\<close>.
  The properties \<open>config\<close> and \<open>props\<close> are opaque values that no code here reads; they
  are left out.
\<close>

record 'v Plugin =
  stateField :: "'v StateField option"

text \<open>Class \<open>Configuration\<close>: \<open>plugins\<close> and \<open>fields\<close> (here \<open>configFields\<close>).\<close>

record 'v Configuration =
  plugins :: "'v Plugin list"
  configFields :: "'v StateField list"

type_synonym 'v State = "('v Configuration, 'v) EditorState"

type_synonym 'v Tr = "('v Configuration, 'v) Transaction"

text \<open>
  The constructor of \<open>Configuration\<close>: the loop over the plugins, with the array \<open>fields\<close>
  built so far as accumulator; the \<open>throw\<close> is the result \<open>Inl\<close>.
\<close>

fun Configuration_loop :: "'v Plugin list \<Rightarrow> 'v StateField list \<Rightarrow> error + 'v StateField list" where
  "Configuration_loop [] fs = Inr fs"
| "Configuration_loop (p # ps) fs =
     (case stateField p of
        None \<Rightarrow> Configuration_loop ps fs
      | Some field \<Rightarrow>
          if key field \<in> set (map key fs)
          then Inl (Error (''A state field ('' @ key field @ '') can only be added to a state once''))
          else Configuration_loop ps (fs @ [field]))"

definition Configuration_new :: "'v Plugin list \<Rightarrow> error + 'v Configuration" where
  "Configuration_new ps =
     (case Configuration_loop ps [] of
        Inl e \<Rightarrow> Inl e
      | Inr fs \<Rightarrow> Inr \<lparr>plugins = ps, configFields = fs\<rparr>)"

text \<open>The state fields that a list of plugins carries, in the order of the plugins.\<close>

definition pluginFields :: "'v Plugin list \<Rightarrow> 'v StateField list" where
  "pluginFields ps = List.map_filter stateField ps"

section \<open>The editor state of the single-file module\<close>

definition getField :: "('c, 'v) EditorState \<Rightarrow> 'v StateField \<Rightarrow> 'v option" where
  "getField s field = fieldVals s (key field)"

fun getPluginWithField_loop :: "'v Plugin list \<Rightarrow> 'v StateField \<Rightarrow> 'v Plugin option" where
  "getPluginWithField_loop [] field = None"
| "getPluginWithField_loop (p # ps) field =
     (if map_option key (stateField p) = Some (key field) then Some p
      else getPluginWithField_loop ps field)"

definition getPluginWithField :: "'v State \<Rightarrow> 'v StateField \<Rightarrow> 'v Plugin option" where
  "getPluginWithField s field = getPluginWithField_loop (plugins (config s)) field"

record 'v EditorStateConfig =
  configDoc :: "Text option"
  configSelection :: "Selection option"
  configPlugins :: "'v Plugin list option"

text \<open>
  \<open>EditorState.create\<close>: the constructor of this class stores its three arguments and
  checks nothing; then every field is initialised in order, each \<open>init\<close> seeing the state
  with the values stored so far.
\<close>

fun create_loop :: "'v StateField list \<Rightarrow> 'v State \<Rightarrow> 'v State" where
  "create_loop [] state = state"
| "create_loop (field # rest) state =
     create_loop rest
       (state\<lparr>fieldVals := (fieldVals state)(key field \<mapsto> init field (viewState state))\<rparr>)"

definition EditorState_create :: "'v EditorStateConfig \<Rightarrow> error + 'v State" where
  "EditorState_create c =
     (let d = (case configDoc c of None \<Rightarrow> [] | Some t \<Rightarrow> t)
      in case Configuration_new (case configPlugins c of None \<Rightarrow> [] | Some ps \<Rightarrow> ps) of
           Inl e \<Rightarrow> Inl e
         | Inr conf \<Rightarrow>
             Inr (create_loop (configFields conf)
                    \<lparr>config = conf, doc = d,
                     selection = (case configSelection c of None \<Rightarrow> Selection_default | Some sel \<Rightarrow> sel),
                     fieldVals = Map.empty\<rparr>))"

section \<open>The editor state of \<open>state/src/state.ts\<close>\<close>

text \<open>
  The class \<open>EditorState\<close> of \<open>state/src/state.ts\<close> is the later form of the class above: its
  constructor checks the selection against the document before it stores anything. The
  record is named \<open>EditorState_ts\<close>, and its properties carry the prefix \<open>ts_\<close>, to keep
  the two apart. The property \<open>applying\<close> starts as \<open>null\<close> and is not read by the
  constructor; it is left out.
\<close>

text \<open>
  Modelled from the spec: the enumeration \<open>SlotStatus\<close> of \<open>./facet\<close> is not among the
  sources. The spec gives a slot three statuses; the constructor writes the first into
  every slot, under the name \<open>Uninitialized\<close>.
\<close>

datatype SlotStatus = Uninitialized | InProgress | Done






section \<open>Transactions\<close>

definition FLAG_SELECTION_SET :: int where
  "FLAG_SELECTION_SET = 1"

definition FLAG_SCROLL_INTO_VIEW :: int where
  "FLAG_SCROLL_INTO_VIEW = 2"

text \<open>
  \<open>Transaction.start(state, time)\<close>: the caller's \<open>time\<close>, or the clock's, is a parameter.
  The slots \<open>MetaSlot.time\<close>, \<open>addToHistory\<close> and \<open>rebased\<close> are the first of their names, so
  \<open>unique\<close> leaves the names as they are.
\<close>

definition MetaSlot_time :: string where
  "MetaSlot_time = ''time''"

definition MetaSlot_addToHistory :: string where
  "MetaSlot_addToHistory = ''addToHistory''"

definition MetaSlot_rebased :: string where
  "MetaSlot_rebased = ''rebased''"

definition Transaction_start :: "('c, 'v) EditorState \<Rightarrow> int \<Rightarrow> ('c, 'v) Transaction" where
  "Transaction_start state time =
     \<lparr>startState = state, changes = [], docs = [], trSelection = selection state,
      meta = [MetaSlot_time \<mapsto> MetaNumber time], flags = 0\<rparr>"

definition Transaction_doc :: "('c, 'v) Transaction \<Rightarrow> Text" where
  "Transaction_doc tr =
     (let last = int (length (docs tr)) - 1
      in if last < 0 then doc (startState tr) else docs tr ! nat last)"

definition setMeta :: "('c, 'v) Transaction \<Rightarrow> string \<Rightarrow> MetaValue \<Rightarrow> ('c, 'v) Transaction" where
  "setMeta tr slot v = tr\<lparr>meta := (meta tr)(slot \<mapsto> v)\<rparr>"

text \<open>
  \<open>getMeta(slot)\<close> reads the property \<open>slot.name\<close> of the table: its own entry when the slot
  was set, else the inherited \<open>constructor\<close> for a slot of that name, else \<open>undefined\<close>.
\<close>

definition getMeta :: "('c, 'v) Transaction \<Rightarrow> string \<Rightarrow> MetaValue option" where
  "getMeta tr slot =
     (case meta tr slot of
        Some v \<Rightarrow> Some v
      | None \<Rightarrow> if slot = ''constructor'' then Some MetaConstructor else None)"

definition Transaction_change :: "('c, 'v) Transaction \<Rightarrow> Change \<Rightarrow> ('c, 'v) Transaction" where
  "Transaction_change tr c =
     (if changeFrom c = changeTo c \<and> changeText c = [] then tr
      else tr\<lparr>changes := changes tr @ [c],
              docs := docs tr @ [Change_apply c (Transaction_doc tr)],
              trSelection := Selection_map (trSelection tr) c\<rparr>)"

definition replace :: "('c, 'v) Transaction \<Rightarrow> int \<Rightarrow> int \<Rightarrow> string \<Rightarrow> ('c, 'v) Transaction" where
  "replace tr lo hi s = Transaction_change tr (Change lo hi s)"

text \<open>
  \<open>reduceRanges(f)\<close>. The inner loop maps \<open>range\<close> through \<open>tr.changes[j]\<close> for \<open>j\<close> from
  \<open>start\<close> up to the current number of changes; the outer loop runs over the ranges of
  \<open>sel\<close>, the selection read before the first iteration.
\<close>

function mapThrough :: "Change list \<Rightarrow> nat \<Rightarrow> Range \<Rightarrow> Range" where
  "mapThrough cs j r =
     (if j < length cs then mapThrough cs (Suc j) (Range_map r (cs ! j)) else r)"
  by pat_completeness auto
termination
  by (relation "measure (\<lambda>(cs, j, r). length cs - j)") simp_all

declare mapThrough.simps [simp del]

fun reduceRanges_loop ::
  "(('c, 'v) Transaction \<Rightarrow> Range \<Rightarrow> ('c, 'v) Transaction) \<Rightarrow> nat \<Rightarrow> Range list \<Rightarrow>
   ('c, 'v) Transaction \<Rightarrow> ('c, 'v) Transaction" where
  "reduceRanges_loop f start [] tr = tr"
| "reduceRanges_loop f start (r # rest) tr =
     reduceRanges_loop f start rest (f tr (mapThrough (changes tr) start r))"

definition reduceRanges ::
  "('c, 'v) Transaction \<Rightarrow> (('c, 'v) Transaction \<Rightarrow> Range \<Rightarrow> ('c, 'v) Transaction) \<Rightarrow>
   ('c, 'v) Transaction" where
  "reduceRanges tr f =
     reduceRanges_loop f (length (changes tr)) (ranges (trSelection tr)) tr"

definition replaceSelection :: "('c, 'v) Transaction \<Rightarrow> string \<Rightarrow> ('c, 'v) Transaction" where
  "replaceSelection tr s =
     reduceRanges tr (\<lambda>state r. Transaction_change state (Change (Range_from r) (Range_to r) s))"

definition setSelection :: "('c, 'v) Transaction \<Rightarrow> Selection \<Rightarrow> ('c, 'v) Transaction" where
  "setSelection tr sel = tr\<lparr>trSelection := sel, flags := flags tr OR FLAG_SELECTION_SET\<rparr>"

definition selectionSet :: "('c, 'v) Transaction \<Rightarrow> bool" where
  "selectionSet tr = (flags tr AND FLAG_SELECTION_SET > 0)"

definition scrollIntoView :: "('c, 'v) Transaction \<Rightarrow> ('c, 'v) Transaction" where
  "scrollIntoView tr = tr\<lparr>flags := flags tr OR FLAG_SCROLL_INTO_VIEW\<rparr>"

definition scrolledIntoView :: "('c, 'v) Transaction \<Rightarrow> bool" where
  "scrolledIntoView tr = (flags tr AND FLAG_SCROLL_INTO_VIEW > 0)"

text \<open>
  \<open>Transaction.apply()\<close>. The loop over \<open>$conf.fields\<close> threads the new state, which each
  iteration updates in place. Beside it the loop keeps the list of the calls it makes to
  the fields' \<open>apply\<close>, in order: the key of the field called, the old value passed and the
  new state as it was handed over (the transaction passed is always the receiver).
\<close>

type_synonym 'v ApplyCall = "string \<times> 'v option \<times> (unit, 'v) EditorState"

fun apply_loop ::
  "'v StateField list \<Rightarrow> 'v Tr \<Rightarrow> 'v State \<times> 'v ApplyCall list \<Rightarrow> 'v State \<times> 'v ApplyCall list" where
  "apply_loop [] tr acc = acc"
| "apply_loop (field # rest) tr (newState, calls) =
     (let old = fieldVals (startState tr) (key field);
          v = applyRule field (viewTransaction tr) old (viewState newState)
      in apply_loop rest tr
           (newState\<lparr>fieldVals := (fieldVals newState)(key field \<mapsto> v)\<rparr>,
            calls @ [(key field, old, viewState newState)]))"

definition apply_newState :: "'v Tr \<Rightarrow> 'v State" where
  "apply_newState tr =
     \<lparr>config = config (startState tr), doc = Transaction_doc tr, selection = trSelection tr,
      fieldVals = Map.empty\<rparr>"

definition Transaction_apply :: "'v Tr \<Rightarrow> 'v State" where
  "Transaction_apply tr =
     fst (apply_loop (configFields (config (startState tr))) tr (apply_newState tr, []))"

definition apply_calls :: "'v Tr \<Rightarrow> 'v ApplyCall list" where
  "apply_calls tr =
     snd (apply_loop (configFields (config (startState tr))) tr (apply_newState tr, []))"

section \<open>Transactions built by calls\<close>

text \<open>
  The constructor of \<open>Transaction\<close> is private: a transaction is \<open>Transaction.start\<close> of a
  state followed by calls of the builder methods. A \<open>BuilderCall\<close> is one such call with
  its arguments; the callback of \<open>reduceRanges\<close> is given by the calls it makes on the
  transaction it receives, which it may choose from that transaction and the range.
\<close>

datatype ('c, 'v) BuilderCall =
    SetMeta string MetaValue
  | DoChange Change
  | Replace int int string
  | ReplaceSelection string
  | ReduceRanges "('c, 'v) Transaction \<Rightarrow> Range \<Rightarrow> ('c, 'v) BuilderCall list"
  | SetSelection Selection
  | ScrollIntoView

primrec runCall :: "('c, 'v) BuilderCall \<Rightarrow> ('c, 'v) Transaction \<Rightarrow> ('c, 'v) Transaction" where
  "runCall (SetMeta slot v) tr = setMeta tr slot v"
| "runCall (DoChange c) tr = Transaction_change tr c"
| "runCall (Replace lo hi s) tr = replace tr lo hi s"
| "runCall (ReplaceSelection s) tr = replaceSelection tr s"
| "runCall (ReduceRanges g) tr = reduceRanges tr (\<lambda>t r. fold (\<lambda>h. h) (map runCall (g t r)) t)"
| "runCall (SetSelection sel) tr = setSelection tr sel"
| "runCall ScrollIntoView tr = scrollIntoView tr"

definition runCalls :: "('c, 'v) BuilderCall list \<Rightarrow> ('c, 'v) Transaction \<Rightarrow> ('c, 'v) Transaction" where
  "runCalls calls tr = fold runCall calls tr"

text \<open>
  \<open>reduceRanges_upto f tr n\<close> is the variable \<open>tr\<close> of \<open>reduceRanges\<close> after the first \<open>n\<close>
  iterations of its outer loop, and \<open>docs_inv\<close> the relation between \<open>changes\<close> and \<open>docs\<close>.
\<close>

definition reduceRanges_upto ::
  "(('c, 'v) Transaction \<Rightarrow> Range \<Rightarrow> ('c, 'v) Transaction) \<Rightarrow> ('c, 'v) Transaction \<Rightarrow> nat \<Rightarrow>
   ('c, 'v) Transaction" where
  "reduceRanges_upto f tr n =
     reduceRanges_loop f (length (changes tr)) (take n (ranges (trSelection tr))) tr"

definition docs_inv :: "('c, 'v) Transaction \<Rightarrow> bool" where
  "docs_inv tr \<longleftrightarrow>
     length (docs tr) = length (changes tr) \<and>
     (\<forall>i<length (changes tr).
        docs tr ! i =
          Change_apply (changes tr ! i) (if i = 0 then doc (startState tr) else docs tr ! (i - 1)))"

text \<open>
  \<open>apply_upto tr n\<close> is the variable \<open>newState\<close> of \<open>Transaction.apply\<close> after the first \<open>n\<close>
  iterations of its loop. \<open>sel_inv\<close> relates the selection of a transaction to the start
  state's: unless the selection was set, it is the start selection mapped through the
  changes.
\<close>

definition apply_upto :: "'v Tr \<Rightarrow> nat \<Rightarrow> 'v State" where
  "apply_upto tr n =
     fst (apply_loop (take n (configFields (config (startState tr)))) tr (apply_newState tr, []))"

definition sel_inv :: "('c, 'v) Transaction \<Rightarrow> bool" where
  "sel_inv tr \<longleftrightarrow>
     length (docs tr) = length (changes tr) \<and>
     (selectionSet tr \<or>
      trSelection tr = fold (\<lambda>c sel. Selection_map sel c) (changes tr) (selection (startState tr)))"

section \<open>Example states\<close>

text \<open>
  The document \<open>abcdef\<close> with cursors at 0 and 3 and the per-range callback of
  \<open>replaceSelection("X")\<close>; the document \<open>hello\<close> with a cursor at its end.
\<close>

definition twoCursors :: "(unit, int) EditorState" where
  "twoCursors =
     \<lparr>config = (), doc = ''abcdef'', selection = Selection [Range 0 0, Range 3 3],
      fieldVals = Map.empty\<rparr>"

definition insertX :: "(unit, int) Transaction \<Rightarrow> Range \<Rightarrow> (unit, int) Transaction" where
  "insertX state r = Transaction_change state (Change (Range_from r) (Range_to r) ''X'')"

definition helloState :: "(unit, int) EditorState" where
  "helloState =
     \<lparr>config = (), doc = ''hello'', selection = Selection [Range 5 5], fieldVals = Map.empty\<rparr>"

text \<open>
  Two state fields: \<open>$step\<close> counts the transactions applied, \<open>$tally\<close> reads \<open>$step\<close> from
  the new state it is handed. \<open>twoFieldState\<close> is the state that \<open>EditorState.create\<close> builds
  from \<open>twoFieldConfig\<close>. \<open>counterField\<close> is a third field, and \<open>noSlots\<close> a configuration
  of \<open>state/src/state.ts\<close> without dynamic slots.
\<close>

definition stepField :: "int StateField" where
  "stepField =
     \<lparr>key = ''$step'', init = (\<lambda>state. 0),
      applyRule = (\<lambda>tr old newState. case old of None \<Rightarrow> 1 | Some n \<Rightarrow> n + 1)\<rparr>"

definition tallyField :: "int StateField" where
  "tallyField =
     \<lparr>key = ''$tally'', init = (\<lambda>state. 0),
      applyRule = (\<lambda>tr old newState. case fieldVals newState ''$step'' of None \<Rightarrow> 0 | Some n \<Rightarrow> n + 100)\<rparr>"

definition twoFieldConfig :: "int EditorStateConfig" where
  "twoFieldConfig =
     \<lparr>configDoc = Some ''ab'', configSelection = None,
      configPlugins = Some [\<lparr>stateField = Some stepField\<rparr>, \<lparr>stateField = Some tallyField\<rparr>]\<rparr>"

definition twoFieldState :: "int State" where
  "twoFieldState =
     \<lparr>config = \<lparr>plugins = [\<lparr>stateField = Some stepField\<rparr>, \<lparr>stateField = Some tallyField\<rparr>],
                configFields = [stepField, tallyField]\<rparr>,
      doc = ''ab'', selection = Selection_default,
      fieldVals = [''$step'' \<mapsto> 0, ''$tally'' \<mapsto> 0]\<rparr>"

definition counterField :: "int StateField" where
  "counterField = \<lparr>key = ''$counter'', init = (\<lambda>state. 0), applyRule = (\<lambda>tr old newState. 1)\<rparr>"


section \<open>Position mapping\<close>

lemma Range_map_ends:
  "Range_map r c = Range (mapPos c (anchor r) 1) (mapPos c (head r) 1)"
  by (cases r) (simp add: Range_map_def Let_def)

lemma Text_slice_length:
  "0 \<le> lo \<Longrightarrow> lo \<le> hi \<Longrightarrow> hi \<le> Text_length d \<Longrightarrow> int (length (Text_slice d lo hi)) = hi - lo"
  by (simp add: Text_slice_def Text_length_def)

lemma mapPos_roundtrip:
  assumes "0 \<le> changeFrom c" "changeFrom c \<le> changeTo c" "changeTo c \<le> Text_length d"
    and "p < changeFrom c \<or> changeTo c \<le> p"
  shows "mapPos (Change_invert c d) (mapPos c p 1) 1 = p"
proof -
  have len: "int (length (Text_slice d (changeFrom c) (changeTo c))) = changeTo c - changeFrom c"
    using assms(1-3) by (rule Text_slice_length)
  show ?thesis
    using assms(2,4) len by (auto simp: mapPos_def Change_invert_def Let_def)
qed

text \<open>
  C1. \<open>mapPos\<close>, case by case: a position before \<open>from\<close>, or at \<open>from\<close> under a negative
  bias, is returned as it is; otherwise a position after \<open>to\<close> is shifted by
  \<open>text.length - (to - from)\<close>; otherwise a side is resolved (the bias for a pure
  insertion, else -1 at \<open>from\<close>, else 1 at \<open>to\<close>, else the bias) and the result is \<open>from\<close>
  for a negative side and \<open>from + text.length\<close> for any other.
\<close>

theorem mapPos_by_cases:
  "(pos < changeFrom c \<or> (bias < 0 \<and> pos = changeFrom c) \<longrightarrow> mapPos c pos bias = pos) \<and>
   (\<not> (pos < changeFrom c \<or> (bias < 0 \<and> pos = changeFrom c)) \<and> pos > changeTo c \<longrightarrow>
      mapPos c pos bias = pos + int (length (changeText c)) - (changeTo c - changeFrom c)) \<and>
   (\<not> (pos < changeFrom c \<or> (bias < 0 \<and> pos = changeFrom c)) \<and> \<not> pos > changeTo c \<longrightarrow>
      (let side = (if changeFrom c = changeTo c then bias
                   else if pos = changeFrom c then - 1
                   else if pos = changeTo c then 1
                   else bias)
       in mapPos c pos bias =
            (if side < 0 then changeFrom c else changeFrom c + int (length (changeText c)))))"
  unfolding mapPos_def Let_def by simp

theorem mapPos_by_cases_witness:
  "mapPos (Change 2 5 ''hi'') 1 1 = 1 \<and> mapPos (Change 2 5 ''hi'') 2 (- 1) = 2 \<and>
   mapPos (Change 2 5 ''hi'') 9 1 = 8 \<and> mapPos (Change 2 5 ''hi'') 5 (- 1) = 4 \<and>
   mapPos (Change 2 5 ''hi'') 3 (- 1) = 2 \<and> mapPos (Change 3 3 ''hi'') 3 1 = 5"
  using mapPos_by_cases [of 1 "Change 2 5 ''hi''" 1]
    mapPos_by_cases [of 2 "Change 2 5 ''hi''" "- 1"]
    mapPos_by_cases [of 9 "Change 2 5 ''hi''" 1]
    mapPos_by_cases [of 5 "Change 2 5 ''hi''" "- 1"]
    mapPos_by_cases [of 3 "Change 2 5 ''hi''" "- 1"]
    mapPos_by_cases [of 3 "Change 3 3 ''hi''" 1]
  by (simp add: Let_def)

text \<open>
  C5. For a position \<open>p\<close> outside the half-open interval \<open>[from, to)\<close>, mapped with the
  default bias: before \<open>from\<close> it is unchanged, and otherwise (it is at or after \<open>to\<close>) it is
  shifted by exactly \<open>text.length - (to - from)\<close>. Under any bias a position outside the
  interval that moves is at or after \<open>to\<close> and moves by exactly that amount.
\<close>

theorem mapPos_outside:
  assumes "p < changeFrom c \<or> changeTo c \<le> p"
  shows "(p < changeFrom c \<longrightarrow> mapPos c p 1 = p) \<and>
         (changeFrom c \<le> p \<longrightarrow>
            mapPos c p 1 = p + int (length (changeText c)) - (changeTo c - changeFrom c)) \<and>
         (mapPos c p bias \<noteq> p \<longrightarrow>
            changeTo c \<le> p \<and>
            mapPos c p bias = p + int (length (changeText c)) - (changeTo c - changeFrom c))"
  using assms by (auto simp: mapPos_def Let_def)

theorem mapPos_outside_witness:
  "mapPos (Change 0 5 ''hi'') 5 1 = 2 \<and> mapPos (Change 0 5 ''hi'') 7 1 = 4 \<and>
   mapPos (Change 3 5 ''hi'') 2 1 = 2"
proof -
  have a: "mapPos (Change 0 5 ''hi'') 5 1 = 2"
    using mapPos_outside [of 5 "Change 0 5 ''hi''" 1] by (simp add: mapPos_def)
  have b: "mapPos (Change 0 5 ''hi'') 7 1 = 4"
    using mapPos_outside [of 7 "Change 0 5 ''hi''" 1] by (simp add: mapPos_def)
  have c: "mapPos (Change 3 5 ''hi'') 2 1 = 2"
    using mapPos_outside [of 2 "Change 3 5 ''hi''" 1] by (simp add: mapPos_def)
  show ?thesis using a b c by simp
qed

text \<open>
  C10. \<open>Range.map\<close> maps both ends with the default bias 1, so a cursor that sits exactly
  at the point of a pure insertion ends up after the inserted text.
\<close>

theorem Range_map_cursor_at_insertion:
  "Range_map r c = Range (mapPos c (anchor r) 1) (mapPos c (head r) 1) \<and>
   Range_map (Range p p) (Change p p txt) = Range (p + int (length txt)) (p + int (length txt))"
  by (simp add: Range_map_ends) (simp add: mapPos_def)

text \<open>
  C2. Round trip: for a change \<open>C\<close> that fits the document it is applied to
  (\<open>0 \<le> from \<le> to \<le> length\<close>) and a range whose two offsets lie outside the half-open
  replaced interval \<open>[from, to)\<close>, mapping the range through \<open>C\<close> and then through
  \<open>C.invert(docBefore)\<close> gives the range back. A pure insertion replaces the empty interval,
  so every offset qualifies; for a pure deletion the offsets inside the deleted text or
  at its start are the ambiguous ones.
\<close>

theorem Range_map_invert_roundtrip:
  assumes "changeFrom c = changeTo c \<or> changeText c = []"
    and "0 \<le> changeFrom c" "changeFrom c \<le> changeTo c" "changeTo c \<le> Text_length docBefore"
    and "anchor r < changeFrom c \<or> changeTo c \<le> anchor r"
    and "head r < changeFrom c \<or> changeTo c \<le> head r"
  shows "Range_map (Range_map r c) (Change_invert c docBefore) = r \<and>
         Change_invert c docBefore =
           Change (changeFrom c) (changeFrom c + int (length (changeText c)))
             (Text_slice docBefore (changeFrom c) (changeTo c))"
proof -
  have a: "mapPos (Change_invert c docBefore) (mapPos c (anchor r) 1) 1 = anchor r"
    using assms(2-5) by (rule mapPos_roundtrip)
  have h: "mapPos (Change_invert c docBefore) (mapPos c (head r) 1) 1 = head r"
    using assms(2-4,6) by (rule mapPos_roundtrip)
  show ?thesis
    by (simp add: Range_map_ends a h) (simp add: Change_invert_def)
qed

theorem Range_map_invert_roundtrip_witness:
  "Range_map (Range_map (Range 1 6) (Change 2 5 [])) (Change_invert (Change 2 5 []) ''abcdefg'')
     = Range 1 6 \<and>
   Change_invert (Change 2 5 []) ''abcdefg'' = Change 2 2 ''cde'' \<and>
   Range_map (Range_map (Range 3 3) (Change 3 3 ''xy'')) (Change_invert (Change 3 3 ''xy'') ''abcdefg'')
     = Range 3 3 \<and>
   Change_invert (Change 3 3 ''xy'') ''abcdefg'' = Change 3 5 []"
proof -
  have a: "Range_map (Range_map (Range 1 6) (Change 2 5 [])) (Change_invert (Change 2 5 []) ''abcdefg'')
      = Range 1 6 \<and>
    Change_invert (Change 2 5 []) ''abcdefg'' = Change 2 2 ''cde''"
    using Range_map_invert_roundtrip [of "Change 2 5 []" "''abcdefg''" "Range 1 6"]
    by (simp add: Text_length_def Text_slice_def Change_invert_def)
  have b: "Range_map (Range_map (Range 3 3) (Change 3 3 ''xy'')) (Change_invert (Change 3 3 ''xy'') ''abcdefg'')
      = Range 3 3 \<and>
    Change_invert (Change 3 3 ''xy'') ''abcdefg'' = Change 3 5 []"
    using Range_map_invert_roundtrip [of "Change 3 3 ''xy''" "''abcdefg''" "Range 3 3"]
    by (simp add: Text_length_def Text_slice_def Change_invert_def)
  from a b show ?thesis by (intro conjI) (erule conjE, assumption)+
qed

section \<open>Properties of transactions\<close>

lemma reduceRanges_loop_preserves:
  assumes "\<And>t r. P t \<Longrightarrow> P (f t r)"
  shows "P tr \<Longrightarrow> P (reduceRanges_loop f start rs tr)"
  by (induction rs arbitrary: tr) (simp_all add: assms)

lemma fold_calls_preserves:
  assumes "\<And>c t. c \<in> set cs \<Longrightarrow> P t \<Longrightarrow> P (runCall c t)"
  shows "P tr \<Longrightarrow> P (fold (\<lambda>h. h) (map runCall cs) tr)"
  using assms by (induction cs arbitrary: tr) simp_all

lemma runCall_preserves:
  assumes m: "\<And>t slot v. P t \<Longrightarrow> P (setMeta t slot v)"
    and c: "\<And>t ch. P t \<Longrightarrow> P (Transaction_change t ch)"
    and s: "\<And>t sel. P t \<Longrightarrow> P (setSelection t sel)"
    and v: "\<And>t. P t \<Longrightarrow> P (scrollIntoView t)"
  shows "P tr \<Longrightarrow> P (runCall call tr)"
proof (induction call arbitrary: tr)
  case (SetMeta slot val)
  then show ?case using m by simp
next
  case (DoChange ch)
  then show ?case using c by simp
next
  case (Replace lo hi str)
  then show ?case using c by (simp add: replace_def)
next
  case (ReplaceSelection str)
  have "P (reduceRanges_loop (\<lambda>state r. Transaction_change state (Change (Range_from r) (Range_to r) str))
          (length (changes tr)) (ranges (trSelection tr)) tr)"
    by (rule reduceRanges_loop_preserves) (rule c, assumption, rule ReplaceSelection.prems)
  then show ?case by (simp add: replaceSelection_def reduceRanges_def)
next
  case (ReduceRanges g)
  have step: "P (fold (\<lambda>h. h) (map runCall (g t r)) t)" if "P t" for t r
  proof (rule fold_calls_preserves)
    fix call t'
    assume "call \<in> set (g t r)" and "P t'"
    moreover have "g t r \<in> range (g t)" and "g t \<in> range g" by blast+
    ultimately show "P (runCall call t')" using ReduceRanges.IH by blast
  qed (rule that)
  have "P (reduceRanges_loop (\<lambda>t r. fold (\<lambda>h. h) (map runCall (g t r)) t)
          (length (changes tr)) (ranges (trSelection tr)) tr)"
    by (rule reduceRanges_loop_preserves) (rule step, assumption, rule ReduceRanges.prems)
  then show ?case by (simp add: reduceRanges_def)
next
  case (SetSelection sel)
  then show ?case using s by simp
next
  case ScrollIntoView
  then show ?case using v by simp
qed

lemma runCalls_preserves:
  assumes m: "\<And>t slot v. P t \<Longrightarrow> P (setMeta t slot v)"
    and c: "\<And>t ch. P t \<Longrightarrow> P (Transaction_change t ch)"
    and s: "\<And>t sel. P t \<Longrightarrow> P (setSelection t sel)"
    and v: "\<And>t. P t \<Longrightarrow> P (scrollIntoView t)"
  shows "P tr \<Longrightarrow> P (runCalls calls tr)"
  unfolding runCalls_def
  by (induction calls arbitrary: tr) (simp_all add: runCall_preserves [of P, OF m c s v])

lemma flag_set: "((x::int) OR 1) AND 1 > 0"
  by (simp add: and_one_eq or_one_eq) presburger

lemma flag_keep: "((x::int) OR 2) AND 1 = x AND 1"
  by (simp add: bit.conj_disj_distrib2)

lemma selectionSet_setSelection: "selectionSet (setSelection tr sel)"
  by (simp add: selectionSet_def setSelection_def FLAG_SELECTION_SET_def flag_set)

lemma selectionSet_scrollIntoView: "selectionSet (scrollIntoView tr) = selectionSet tr"
  by (simp add: selectionSet_def scrollIntoView_def FLAG_SELECTION_SET_def FLAG_SCROLL_INTO_VIEW_def flag_keep)

lemma Transaction_doc_last:
  "Transaction_doc tr = (if docs tr = [] then doc (startState tr) else last (docs tr))"
  by (cases "docs tr" rule: rev_cases) (simp_all add: Transaction_doc_def)

lemma Transaction_doc_nth:
  "Transaction_doc tr =
     (if length (docs tr) = 0 then doc (startState tr) else docs tr ! (length (docs tr) - 1))"
  by (cases "docs tr" rule: rev_cases) (simp_all add: Transaction_doc_def)

lemma docs_inv_start: "docs_inv (Transaction_start s time)"
  by (simp add: docs_inv_def Transaction_start_def)

lemma docs_inv_change:
  assumes "docs_inv tr"
  shows "docs_inv (Transaction_change tr c)"
proof (cases "changeFrom c = changeTo c \<and> changeText c = []")
  case True
  then show ?thesis using assms by (simp add: Transaction_change_def)
next
  case False
  let ?n = "length (changes tr)"
  have len: "length (docs tr) = ?n" using assms by (simp add: docs_inv_def)
  have old: "docs tr ! i =
      Change_apply (changes tr ! i) (if i = 0 then doc (startState tr) else docs tr ! (i - 1))"
    if "i < ?n" for i
    using assms that by (simp add: docs_inv_def)
  let ?t = "Transaction_change tr c"
  have ch: "changes ?t = changes tr @ [c]"
    and ds: "docs ?t = docs tr @ [Change_apply c (Transaction_doc tr)]"
    and st: "startState ?t = startState tr"
    using False by (simp_all add: Transaction_change_def)
  have "docs ?t ! i =
      Change_apply (changes ?t ! i) (if i = 0 then doc (startState ?t) else docs ?t ! (i - 1))"
    if "i < length (changes ?t)" for i
  proof (cases "i < ?n")
    case True
    then have "i - 1 < length (docs tr)" using len by simp
    then show ?thesis using True old [OF True] len by (simp add: ch ds st nth_append)
  next
    case False
    then have i: "i = ?n" using that by (simp add: ch)
    show ?thesis
      by (simp add: i ch ds st nth_append len [symmetric] Transaction_doc_nth)
  qed
  then show ?thesis by (simp add: docs_inv_def ch ds len)
qed

lemma docs_inv_setMeta: "docs_inv tr \<Longrightarrow> docs_inv (setMeta tr slot v)"
  by (simp add: docs_inv_def setMeta_def)

lemma docs_inv_setSelection: "docs_inv tr \<Longrightarrow> docs_inv (setSelection tr sel)"
  by (simp add: docs_inv_def setSelection_def)

lemma docs_inv_scrollIntoView: "docs_inv tr \<Longrightarrow> docs_inv (scrollIntoView tr)"
  by (simp add: docs_inv_def scrollIntoView_def)

lemma docs_inv_runCalls: "docs_inv tr \<Longrightarrow> docs_inv (runCalls calls tr)"
  by (rule runCalls_preserves [of docs_inv])
    (simp_all add: docs_inv_setMeta docs_inv_change docs_inv_setSelection docs_inv_scrollIntoView)

lemma startState_runCalls: "startState (runCalls calls tr) = startState tr"
proof -
  have "startState (runCalls calls tr) = startState tr"
    by (rule runCalls_preserves [of "\<lambda>t. startState t = startState tr"])
      (simp_all add: setMeta_def Transaction_change_def setSelection_def scrollIntoView_def)
  then show ?thesis .
qed

lemma mapThrough_fold: "mapThrough cs j r = fold (\<lambda>c q. Range_map q c) (drop j cs) r"
proof (induction cs j r rule: mapThrough.induct)
  case (1 cs j r)
  show ?case
  proof (cases "j < length cs")
    case True
    then have "drop j cs = cs ! j # drop (Suc j) cs" by (simp add: Cons_nth_drop_Suc)
    then show ?thesis using True "1.IH" by (subst mapThrough.simps) simp
  next
    case False
    then show ?thesis by (subst mapThrough.simps) simp
  qed
qed

lemma reduceRanges_loop_snoc:
  "reduceRanges_loop f start (rs @ [r]) tr =
     f (reduceRanges_loop f start rs tr)
       (mapThrough (changes (reduceRanges_loop f start rs tr)) start r)"
  by (induction rs arbitrary: tr) simp_all

lemma reduceRanges_upto_Suc:
  assumes "i < length (ranges (trSelection tr))"
  shows "reduceRanges_upto f tr (Suc i) =
     f (reduceRanges_upto f tr i)
       (fold (\<lambda>c q. Range_map q c)
          (drop (length (changes tr)) (changes (reduceRanges_upto f tr i)))
          (ranges (trSelection tr) ! i))"
  using assms
  by (simp add: reduceRanges_upto_def take_Suc_conv_app_nth reduceRanges_loop_snoc mapThrough_fold)

lemma replaceSelection_twoCursors:
  "changes (replaceSelection (Transaction_start twoCursors time) ''X'') =
     [Change 0 0 ''X'', Change 4 4 ''X''] \<and>
   docs (replaceSelection (Transaction_start twoCursors time) ''X'') = [''Xabcdef'', ''XabcXdef''] \<and>
   Transaction_doc (replaceSelection (Transaction_start twoCursors time) ''X'') = ''XabcXdef''"
  by (simp add: replaceSelection_def reduceRanges_def Transaction_start_def twoCursors_def
      mapThrough_fold Transaction_change_def Range_from_def Range_to_def Transaction_doc_def
      Change_apply_def Text_replace_def Selection_map_def Range_map_def mapPos_def)

text \<open>
  C3. \<open>reduceRanges(f)\<close> runs over the ranges of the selection the transaction had when
  the reduction started, one iteration per range; before \<open>f\<close> is called on the \<open>i\<close>-th
  range, the range is mapped through the changes of the current transaction from the
  starting change count onward, those the earlier iterations appended. On the document
  \<open>abcdef\<close> with cursors at 0 and 3, \<open>replaceSelection("X")\<close> inserts at 0 and then at the
  mapped position 4, and the final document is \<open>XabcXdef\<close>.
\<close>

theorem reduceRanges_remaps_ranges:
  "reduceRanges tr f = reduceRanges_upto f tr (length (ranges (trSelection tr))) \<and>
   reduceRanges_upto f tr 0 = tr \<and>
   (\<forall>i<length (ranges (trSelection tr)).
      reduceRanges_upto f tr (Suc i) =
        f (reduceRanges_upto f tr i)
          (fold (\<lambda>c q. Range_map q c)
             (drop (length (changes tr)) (changes (reduceRanges_upto f tr i)))
             (ranges (trSelection tr) ! i))) \<and>
   changes (replaceSelection (Transaction_start twoCursors time) ''X'') =
     [Change 0 0 ''X'', Change 4 4 ''X''] \<and>
   Transaction_doc (replaceSelection (Transaction_start twoCursors time) ''X'') = ''XabcXdef''"
  by (simp add: reduceRanges_upto_Suc replaceSelection_twoCursors)
    (simp add: reduceRanges_def reduceRanges_upto_def)

theorem reduceRanges_remaps_ranges_witness:
  "reduceRanges_upto insertX (Transaction_start twoCursors 0) 2 =
     insertX (reduceRanges_upto insertX (Transaction_start twoCursors 0) 1) (Range 4 4)"
proof -
  let ?t = "Transaction_start twoCursors 0"
  have sel: "ranges (trSelection ?t) = [Range 0 0, Range 3 3]" and ch: "changes ?t = []"
    by (simp_all add: Transaction_start_def twoCursors_def)
  have one: "changes (reduceRanges_upto insertX ?t 1) = [Change 0 0 ''X'']"
    by (simp add: reduceRanges_upto_def sel ch mapThrough_fold insertX_def Range_from_def
        Range_to_def Transaction_change_def)
  have "(1::nat) < length (ranges (trSelection ?t))" by (simp add: sel)
  with reduceRanges_remaps_ranges [of ?t insertX 0]
  have step: "reduceRanges_upto insertX ?t (Suc 1) =
      insertX (reduceRanges_upto insertX ?t 1)
        (fold (\<lambda>c q. Range_map q c)
           (drop (length (changes ?t)) (changes (reduceRanges_upto insertX ?t 1)))
           (ranges (trSelection ?t) ! 1))"
    by blast
  have r: "fold (\<lambda>c q. Range_map q c)
           (drop (length (changes ?t)) (changes (reduceRanges_upto insertX ?t 1)))
           (ranges (trSelection ?t) ! 1) = Range 4 4"
    unfolding one sel ch by (simp add: Range_map_def mapPos_def)
  show ?thesis using step unfolding r Suc_1 .
qed

text \<open>
  C9. Every transaction built from \<open>Transaction.start\<close> by builder calls has one entry of
  \<open>docs\<close> per change, entry \<open>i\<close> being change \<open>i\<close> applied to the document before it (the
  start state's for the first), and its \<open>doc\<close> is the last entry of \<open>docs\<close>, or the start
  state's document when it has no changes.
\<close>

theorem Transaction_docs_invariant:
  assumes "tr = runCalls calls (Transaction_start s time)"
  shows "length (docs tr) = length (changes tr) \<and>
         (\<forall>i<length (changes tr).
            docs tr ! i =
              Change_apply (changes tr ! i) (if i = 0 then doc s else docs tr ! (i - 1))) \<and>
         Transaction_doc tr = (if changes tr = [] then doc s else last (docs tr))"
proof -
  have st: "startState tr = s"
    by (simp add: assms startState_runCalls) (simp add: Transaction_start_def)
  have inv: "docs_inv tr"
    unfolding assms by (rule docs_inv_runCalls) (rule docs_inv_start)
  then have len: "length (docs tr) = length (changes tr)" by (simp add: docs_inv_def)
  then have "docs tr = [] \<longleftrightarrow> changes tr = []" by (metis length_0_conv)
  then show ?thesis
    using inv st by (simp add: docs_inv_def Transaction_doc_last)
qed

theorem Transaction_docs_invariant_witness:
  "docs (runCalls [Replace 0 5 ''hi'', ScrollIntoView, Replace 2 2 ''!''] (Transaction_start helloState 0))
     = [''hi'', ''hi!''] \<and>
   changes (runCalls [Replace 0 5 ''hi'', ScrollIntoView, Replace 2 2 ''!''] (Transaction_start helloState 0))
     = [Change 0 5 ''hi'', Change 2 2 ''!''] \<and>
   Transaction_doc (runCalls [Replace 0 5 ''hi'', ScrollIntoView, Replace 2 2 ''!''] (Transaction_start helloState 0))
     = ''hi!''"
  using Transaction_docs_invariant [OF refl, of "[Replace 0 5 ''hi'', ScrollIntoView, Replace 2 2 ''!'']" helloState 0]
  by (simp add: runCalls_def replace_def scrollIntoView_def Transaction_change_def
      Transaction_start_def helloState_def Transaction_doc_def Change_apply_def Text_replace_def)

section \<open>Configurations and state construction\<close>

lemma pluginFields_Nil: "pluginFields [] = []"
  by (simp add: pluginFields_def)

lemma pluginFields_Cons:
  "pluginFields (p # ps) =
     (case stateField p of None \<Rightarrow> pluginFields ps | Some f \<Rightarrow> f # pluginFields ps)"
  by (simp add: pluginFields_def map_filter_simps split: option.split)

lemma Configuration_loop_distinct:
  "distinct (map key (fs @ pluginFields ps)) \<Longrightarrow>
   Configuration_loop ps fs = Inr (fs @ pluginFields ps)"
proof (induction ps arbitrary: fs)
  case Nil
  then show ?case by (simp add: pluginFields_Nil)
next
  case (Cons p ps)
  show ?case
  proof (cases "stateField p")
    case None
    then show ?thesis using Cons by (simp add: pluginFields_Cons)
  next
    case (Some f)
    from Cons.prems Some have d: "distinct (map key ((fs @ [f]) @ pluginFields ps))"
      by (simp add: pluginFields_Cons)
    from Cons.prems Some have "key f \<notin> set (map key fs)"
      by (auto simp: pluginFields_Cons)
    then show ?thesis using Some Cons.IH [OF d] by (simp add: pluginFields_Cons)
  qed
qed

lemma Configuration_loop_repeated:
  "distinct (map key fs) \<Longrightarrow> \<not> distinct (map key (fs @ pluginFields ps)) \<Longrightarrow>
   \<exists>f\<in>set (pluginFields ps).
     Configuration_loop ps fs =
       Inl (Error (''A state field ('' @ key f @ '') can only be added to a state once''))"
proof (induction ps arbitrary: fs)
  case Nil
  then show ?case by (simp add: pluginFields_Nil)
next
  case (Cons p ps)
  show ?case
  proof (cases "stateField p")
    case None
    then show ?thesis using Cons by (simp add: pluginFields_Cons)
  next
    case (Some f)
    show ?thesis
    proof (cases "key f \<in> set (map key fs)")
      case True
      then show ?thesis using Some by (simp add: pluginFields_Cons)
    next
      case False
      then have d: "distinct (map key (fs @ [f]))" using Cons.prems(1) by simp
      have n: "\<not> distinct (map key ((fs @ [f]) @ pluginFields ps))"
        using Cons.prems(2) Some by (simp add: pluginFields_Cons)
      from Cons.IH [OF d n] show ?thesis using Some False by (simp add: pluginFields_Cons)
    qed
  qed
qed

text \<open>
  C6. A list of plugins in which the same state field occurs more than once is refused:
  the constructor of \<open>Configuration\<close> throws the error "A state field (key) can only be
  added to a state once" for a field of the list. A list whose fields are all different
  is accepted, with exactly those fields in the order of the plugins.
\<close>

theorem Configuration_field_once:
  "(\<not> distinct (map key (pluginFields ps)) \<longrightarrow>
      (\<exists>f\<in>set (pluginFields ps).
         Configuration_new ps =
           Inl (Error (''A state field ('' @ key f @ '') can only be added to a state once'')))) \<and>
   (distinct (map key (pluginFields ps)) \<longrightarrow>
      Configuration_new ps = Inr \<lparr>plugins = ps, configFields = pluginFields ps\<rparr>)"
proof (cases "distinct (map key (pluginFields ps))")
  case True
  then have "Configuration_loop ps [] = Inr ([] @ pluginFields ps)"
    by (intro Configuration_loop_distinct) simp
  then show ?thesis using True by (simp add: Configuration_new_def)
next
  case False
  then have "\<exists>f\<in>set (pluginFields ps).
     Configuration_loop ps [] =
       Inl (Error (''A state field ('' @ key f @ '') can only be added to a state once''))"
    by (intro Configuration_loop_repeated) simp_all
  then show ?thesis using False by (auto simp: Configuration_new_def)
qed

theorem Configuration_field_once_witness:
  "Configuration_new
     [\<lparr>stateField = Some counterField\<rparr>, \<lparr>stateField = None\<rparr>, \<lparr>stateField = Some counterField\<rparr>] =
     Inl (Error ''A state field ($counter) can only be added to a state once'') \<and>
   Configuration_new [\<lparr>stateField = Some counterField\<rparr>, \<lparr>stateField = None\<rparr>] =
     Inr \<lparr>plugins = [\<lparr>stateField = Some counterField\<rparr>, \<lparr>stateField = None\<rparr>],
          configFields = [counterField]\<rparr>"
proof -
  have a: "Configuration_new
     [\<lparr>stateField = Some counterField\<rparr>, \<lparr>stateField = None\<rparr>, \<lparr>stateField = Some counterField\<rparr>] =
     Inl (Error ''A state field ($counter) can only be added to a state once'')"
    using Configuration_field_once
      [of "[\<lparr>stateField = Some counterField\<rparr>, \<lparr>stateField = None\<rparr>, \<lparr>stateField = Some counterField\<rparr>]"]
    by (simp add: pluginFields_Cons pluginFields_Nil) (simp add: counterField_def)
  have b: "Configuration_new [\<lparr>stateField = Some counterField\<rparr>, \<lparr>stateField = None\<rparr>] =
     Inr \<lparr>plugins = [\<lparr>stateField = Some counterField\<rparr>, \<lparr>stateField = None\<rparr>],
          configFields = [counterField]\<rparr>"
    using Configuration_field_once [of "[\<lparr>stateField = Some counterField\<rparr>, \<lparr>stateField = None\<rparr>]"]
    by (simp add: pluginFields_Cons pluginFields_Nil)
  show ?thesis using a b by (rule conjI)
qed




section \<open>Applying a transaction\<close>

lemma EditorState_create_twoFields: "EditorState_create twoFieldConfig = Inr twoFieldState"
  by (simp add: EditorState_create_def twoFieldConfig_def twoFieldState_def Configuration_new_def
      stepField_def tallyField_def viewState_def)

lemma apply_loop_append:
  "apply_loop (xs @ ys) tr acc = apply_loop ys tr (apply_loop xs tr acc)"
proof (induction xs arbitrary: acc)
  case Nil
  then show ?case by simp
next
  case (Cons x xs)
  obtain st calls where acc: "acc = (st, calls)" by (cases acc)
  show ?case by (simp add: acc Let_def Cons.IH)
qed

lemma apply_loop_frame:
  "config (fst (apply_loop fs tr (st, calls))) = config st \<and>
   doc (fst (apply_loop fs tr (st, calls))) = doc st \<and>
   selection (fst (apply_loop fs tr (st, calls))) = selection st"
  by (induction fs arbitrary: st calls) (simp_all add: Let_def)

lemma apply_loop_calls_length:
  "length (snd (apply_loop fs tr (st, calls))) = length calls + length fs"
  by (induction fs arbitrary: st calls) (simp_all add: Let_def)

lemma apply_loop_calls_prefix:
  "i < length calls \<Longrightarrow> snd (apply_loop fs tr (st, calls)) ! i = calls ! i"
  by (induction fs arbitrary: st calls) (simp_all add: Let_def nth_append)

lemma apply_loop_fieldVals_other:
  "k \<notin> key ` set fs \<Longrightarrow> fieldVals (fst (apply_loop fs tr (st, calls))) k = fieldVals st k"
  by (induction fs arbitrary: st calls) (simp_all add: Let_def)

lemma apply_loop_dom:
  "dom (fieldVals (fst (apply_loop fs tr (st, calls)))) = dom (fieldVals st) \<union> key ` set fs"
  by (induction fs arbitrary: st calls) (simp_all add: Let_def)

lemma apply_upto_0: "apply_upto tr 0 = apply_newState tr"
  by (simp add: apply_upto_def)

lemma apply_upto_all:
  "Transaction_apply tr = apply_upto tr (length (configFields (config (startState tr))))"
  by (simp add: apply_upto_def Transaction_apply_def)

lemma apply_upto_frame:
  "config (apply_upto tr i) = config (startState tr) \<and> doc (apply_upto tr i) = Transaction_doc tr \<and>
   selection (apply_upto tr i) = trSelection tr"
  by (simp add: apply_upto_def apply_loop_frame) (simp add: apply_newState_def)

lemma apply_upto_dom:
  "dom (fieldVals (apply_upto tr i)) = key ` set (take i (configFields (config (startState tr))))"
  by (simp add: apply_upto_def apply_loop_dom) (simp add: apply_newState_def)

lemma apply_upto_Suc:
  assumes "i < length (configFields (config (startState tr)))"
  shows "apply_upto tr (Suc i) =
     (apply_upto tr i)\<lparr>fieldVals := (fieldVals (apply_upto tr i))
        (key (configFields (config (startState tr)) ! i) \<mapsto>
           applyRule (configFields (config (startState tr)) ! i) (viewTransaction tr)
             (fieldVals (startState tr) (key (configFields (config (startState tr)) ! i)))
             (viewState (apply_upto tr i)))\<rparr>"
proof -
  let ?fs = "configFields (config (startState tr))"
  obtain st calls where p: "apply_loop (take i ?fs) tr (apply_newState tr, []) = (st, calls)"
    by (cases "apply_loop (take i ?fs) tr (apply_newState tr, [])")
  have st: "apply_upto tr i = st" by (simp add: apply_upto_def p)
  have "apply_upto tr (Suc i) = fst (apply_loop [?fs ! i] tr (st, calls))"
    using assms by (simp add: apply_upto_def take_Suc_conv_app_nth apply_loop_append p)
  then show ?thesis by (simp add: st Let_def)
qed

lemma apply_calls_length:
  "length (apply_calls tr) = length (configFields (config (startState tr)))"
  by (simp add: apply_calls_def apply_loop_calls_length)

lemma apply_calls_nth:
  assumes "i < length (configFields (config (startState tr)))"
  shows "apply_calls tr ! i =
     (key (configFields (config (startState tr)) ! i),
      fieldVals (startState tr) (key (configFields (config (startState tr)) ! i)),
      viewState (apply_upto tr i))"
proof -
  let ?fs = "configFields (config (startState tr))"
  obtain st calls where p: "apply_loop (take i ?fs) tr (apply_newState tr, []) = (st, calls)"
    by (cases "apply_loop (take i ?fs) tr (apply_newState tr, [])")
  have st: "apply_upto tr i = st" by (simp add: apply_upto_def p)
  have "length (snd (apply_loop (take i ?fs) tr (apply_newState tr, []))) = length (take i ?fs)"
    by (simp only: apply_loop_calls_length) simp
  then have len: "length calls = i" using assms by (simp add: p)
  have split: "?fs = take i ?fs @ (?fs ! i # drop (Suc i) ?fs)"
    using assms by (simp add: id_take_nth_drop [symmetric])
  have "apply_calls tr = snd (apply_loop (?fs ! i # drop (Suc i) ?fs) tr (st, calls))"
    unfolding apply_calls_def by (subst split) (simp only: apply_loop_append p)
  also have "\<dots> ! i =
      (calls @ [(key (?fs ! i), fieldVals (startState tr) (key (?fs ! i)), viewState st)]) ! i"
    by (simp add: Let_def del: nth_append_length) (rule apply_loop_calls_prefix, simp add: len)
  also have "\<dots> = (key (?fs ! i), fieldVals (startState tr) (key (?fs ! i)), viewState st)"
    using len by (metis nth_append_length)
  finally show ?thesis by (simp only: st)
qed

lemma Transaction_apply_field_value:
  assumes "i < length (configFields (config (startState tr)))"
    and "distinct (map key (configFields (config (startState tr))))"
  shows "fieldVals (Transaction_apply tr) (key (configFields (config (startState tr)) ! i)) =
     Some (applyRule (configFields (config (startState tr)) ! i) (viewTransaction tr)
             (fieldVals (startState tr) (key (configFields (config (startState tr)) ! i)))
             (viewState (apply_upto tr i)))"
proof -
  let ?fs = "configFields (config (startState tr))"
  obtain st calls where p: "apply_loop (take (Suc i) ?fs) tr (apply_newState tr, []) = (st, calls)"
    by (cases "apply_loop (take (Suc i) ?fs) tr (apply_newState tr, [])")
  have st: "apply_upto tr (Suc i) = st" by (simp add: apply_upto_def p)
  have "distinct (map key (take (Suc i) ?fs @ drop (Suc i) ?fs))" using assms(2) by simp
  then have "key (?fs ! i) \<notin> key ` set (drop (Suc i) ?fs)"
    using assms(1) by (auto simp: take_Suc_conv_app_nth)
  then have "fieldVals (fst (apply_loop (drop (Suc i) ?fs) tr (st, calls))) (key (?fs ! i)) =
      fieldVals st (key (?fs ! i))"
    by (rule apply_loop_fieldVals_other)
  moreover have "Transaction_apply tr = fst (apply_loop (drop (Suc i) ?fs) tr (st, calls))"
  proof -
    have "apply_loop ?fs tr (apply_newState tr, []) =
        apply_loop (take (Suc i) ?fs @ drop (Suc i) ?fs) tr (apply_newState tr, [])"
      by simp
    then show ?thesis
      unfolding Transaction_apply_def by (simp only: apply_loop_append p)
  qed
  ultimately have "fieldVals (Transaction_apply tr) (key (?fs ! i)) =
      fieldVals (apply_upto tr (Suc i)) (key (?fs ! i))"
    by (simp add: st)
  then show ?thesis by (simp add: apply_upto_Suc [OF assms(1)])
qed

lemma selectionSet_setMeta: "selectionSet (setMeta tr slot v) = selectionSet tr"
  by (simp add: selectionSet_def setMeta_def)

lemma sel_inv_start: "sel_inv (Transaction_start s time)"
  by (simp add: sel_inv_def Transaction_start_def)

lemma sel_inv_change: "sel_inv tr \<Longrightarrow> sel_inv (Transaction_change tr c)"
  by (auto simp: sel_inv_def Transaction_change_def selectionSet_def)

lemma sel_inv_setMeta: "sel_inv tr \<Longrightarrow> sel_inv (setMeta tr slot v)"
  by (simp add: sel_inv_def selectionSet_setMeta) (simp add: setMeta_def)

lemma sel_inv_setSelection: "sel_inv tr \<Longrightarrow> sel_inv (setSelection tr sel)"
  by (simp add: sel_inv_def selectionSet_setSelection) (simp add: setSelection_def)

lemma sel_inv_scrollIntoView: "sel_inv tr \<Longrightarrow> sel_inv (scrollIntoView tr)"
  by (simp add: sel_inv_def selectionSet_scrollIntoView) (simp add: scrollIntoView_def)

lemma sel_inv_runCalls: "sel_inv tr \<Longrightarrow> sel_inv (runCalls calls tr)"
  by (rule runCalls_preserves [of sel_inv])
    (simp_all add: sel_inv_setMeta sel_inv_change sel_inv_setSelection sel_inv_scrollIntoView)

text \<open>
  C4, as stated, fails. \<open>Transaction.apply\<close> passes the new state under construction to
  every field's \<open>apply\<close> as third argument, and that state already holds the values
  computed in this pass. In \<open>twoFieldState\<close> the field \<open>$step\<close> has the value 0; when the
  rule of \<open>$tally\<close> is called, the new state it receives holds the new value 1 of \<open>$step\<close>,
  and the result 101 of the rule is computed from it.
\<close>

theorem Transaction_apply_sees_new_values:
  "fieldVals twoFieldState ''$step'' = Some 0 \<and>
   apply_calls (Transaction_start twoFieldState 0) ! 1 =
     (''$tally'', Some 0,
      \<lparr>config = (), doc = ''ab'', selection = Selection_default, fieldVals = [''$step'' \<mapsto> 1]\<rparr>) \<and>
   fieldVals (Transaction_apply (Transaction_start twoFieldState 0)) ''$tally'' = Some 101"
  by (simp add: twoFieldState_def apply_calls_def Transaction_apply_def Transaction_start_def
      apply_newState_def stepField_def tallyField_def viewState_def Transaction_doc_def Let_def)

text \<open>
  C4, amended. \<open>Transaction.apply\<close> calls the fields' \<open>apply\<close> rules once each, in the order
  of the configuration's fields. The \<open>i\<close>-th call receives the transaction, the field's
  value in the start state, and the new state under construction, which has the
  transaction's document and selection and holds the values computed in this pass for
  exactly the fields earlier in the order; the result of the call is stored in the new
  state under the field's key.
\<close>

theorem Transaction_apply_field_order:
  assumes "fs = configFields (config (startState tr))"
  shows "length (apply_calls tr) = length fs \<and>
    apply_upto tr 0 = apply_newState tr \<and>
    Transaction_apply tr = apply_upto tr (length fs) \<and>
    (\<forall>i<length fs.
       apply_calls tr ! i =
         (key (fs ! i), fieldVals (startState tr) (key (fs ! i)), viewState (apply_upto tr i)) \<and>
       doc (apply_upto tr i) = Transaction_doc tr \<and>
       selection (apply_upto tr i) = trSelection tr \<and>
       dom (fieldVals (apply_upto tr i)) = key ` set (take i fs) \<and>
       apply_upto tr (Suc i) =
         (apply_upto tr i)\<lparr>fieldVals := (fieldVals (apply_upto tr i))
            (key (fs ! i) \<mapsto>
               applyRule (fs ! i) (viewTransaction tr) (fieldVals (startState tr) (key (fs ! i)))
                 (viewState (apply_upto tr i)))\<rparr>)"
  unfolding assms
  by (simp add: apply_calls_length apply_upto_0 apply_upto_all [symmetric] apply_calls_nth
      apply_upto_frame apply_upto_dom apply_upto_Suc)

theorem Transaction_apply_field_order_witness:
  "apply_calls (Transaction_start twoFieldState 0) ! 1 =
     (''$tally'', Some 0, viewState (apply_upto (Transaction_start twoFieldState 0) 1)) \<and>
   dom (fieldVals (apply_upto (Transaction_start twoFieldState 0) 1)) = {''$step''} \<and>
   fieldVals (apply_upto (Transaction_start twoFieldState 0) 2) ''$tally'' = Some 101"
proof -
  let ?t = "Transaction_start twoFieldState 0"
  have fs: "[stepField, tallyField] = configFields (config (startState ?t))"
    by (simp add: Transaction_start_def twoFieldState_def)
  have one: "fieldVals (apply_upto ?t (Suc 0)) = [''$step'' \<mapsto> 1]"
    by (simp add: apply_upto_def Transaction_start_def twoFieldState_def apply_newState_def
        stepField_def Let_def)
  have old: "fieldVals (startState ?t) ''$tally'' = Some 0"
    by (simp add: Transaction_start_def twoFieldState_def)
  have "(1::nat) < length [stepField, tallyField]" by simp
  from Transaction_apply_field_order
    [OF fs, THEN conjunct2, THEN conjunct2, THEN conjunct2, rule_format, OF this]
  show ?thesis
    unfolding Suc_1 by (simp add: old one tallyField_def stepField_def viewState_def)
qed

text \<open>
  C8. For a transaction built from \<open>Transaction.start\<close> of a state by builder calls that
  has no changes and whose selection was never set, \<open>apply\<close> yields a state with the start
  state's document, selection and configuration, and still calls every configured
  field's \<open>apply\<close> rule once, in order, with the transaction and the field's value in the
  start state; the result of each call is stored under the field's key.
\<close>

theorem Transaction_apply_without_changes:
  assumes "tr = runCalls calls (Transaction_start s time)"
    and "changes tr = []" and "\<not> selectionSet tr"
    and "fs = configFields (config s)"
  shows "doc (Transaction_apply tr) = doc s \<and>
    selection (Transaction_apply tr) = selection s \<and>
    config (Transaction_apply tr) = config s \<and>
    length (apply_calls tr) = length fs \<and>
    (\<forall>i<length fs.
       fst (apply_calls tr ! i) = key (fs ! i) \<and>
       fst (snd (apply_calls tr ! i)) = fieldVals s (key (fs ! i)) \<and>
       fieldVals (apply_upto tr (Suc i)) (key (fs ! i)) =
         Some (applyRule (fs ! i) (viewTransaction tr) (fieldVals s (key (fs ! i)))
                 (snd (snd (apply_calls tr ! i)))) \<and>
       (distinct (map key fs) \<longrightarrow>
          fieldVals (Transaction_apply tr) (key (fs ! i)) =
            Some (applyRule (fs ! i) (viewTransaction tr) (fieldVals s (key (fs ! i)))
                    (snd (snd (apply_calls tr ! i))))))"
proof -
  have st: "startState tr = s"
    by (simp add: assms(1) startState_runCalls) (simp add: Transaction_start_def)
  have "sel_inv tr"
    unfolding assms(1) by (rule sel_inv_runCalls) (rule sel_inv_start)
  then have ds: "docs tr = []" and sel: "trSelection tr = selection s"
    using assms(2,3) by (simp_all add: sel_inv_def st)
  have d: "Transaction_doc tr = doc s" by (simp add: Transaction_doc_def ds st)
  have fs: "fs = configFields (config (startState tr))" by (simp add: assms(4) st)
  have frame: "doc (Transaction_apply tr) = doc s \<and> selection (Transaction_apply tr) = selection s \<and>
      config (Transaction_apply tr) = config s"
    by (simp add: apply_upto_all apply_upto_frame d sel st)
  have len: "length (apply_calls tr) = length fs" by (simp add: apply_calls_length fs)
  have each: "fst (apply_calls tr ! i) = key (fs ! i) \<and>
       fst (snd (apply_calls tr ! i)) = fieldVals s (key (fs ! i)) \<and>
       fieldVals (apply_upto tr (Suc i)) (key (fs ! i)) =
         Some (applyRule (fs ! i) (viewTransaction tr) (fieldVals s (key (fs ! i)))
                 (snd (snd (apply_calls tr ! i)))) \<and>
       (distinct (map key fs) \<longrightarrow>
          fieldVals (Transaction_apply tr) (key (fs ! i)) =
            Some (applyRule (fs ! i) (viewTransaction tr) (fieldVals s (key (fs ! i)))
                    (snd (snd (apply_calls tr ! i)))))"
    if i: "i < length fs" for i
  proof -
    from i have i': "i < length (configFields (config (startState tr)))" by (simp add: fs)
    have c: "apply_calls tr ! i =
        (key (fs ! i), fieldVals s (key (fs ! i)), viewState (apply_upto tr i))"
      using apply_calls_nth [OF i'] by (simp add: st assms(4))
    have u: "fieldVals (apply_upto tr (Suc i)) (key (fs ! i)) =
        Some (applyRule (fs ! i) (viewTransaction tr) (fieldVals s (key (fs ! i)))
                (viewState (apply_upto tr i)))"
      by (simp add: apply_upto_Suc [OF i'] st assms(4))
    have v: "fieldVals (Transaction_apply tr) (key (fs ! i)) =
        Some (applyRule (fs ! i) (viewTransaction tr) (fieldVals s (key (fs ! i)))
                (viewState (apply_upto tr i)))"
      if "distinct (map key fs)"
      using Transaction_apply_field_value [OF i'] that by (simp add: st assms(4))
    show ?thesis using u v by (simp add: c)
  qed
  show ?thesis using frame len each by blast
qed

theorem Transaction_apply_without_changes_witness:
  "doc (Transaction_apply (runCalls [ScrollIntoView, Replace 1 1 []] (Transaction_start twoFieldState 7))) = ''ab'' \<and>
   selection (Transaction_apply (runCalls [ScrollIntoView, Replace 1 1 []] (Transaction_start twoFieldState 7)))
     = Selection_default \<and>
   length (apply_calls (runCalls [ScrollIntoView, Replace 1 1 []] (Transaction_start twoFieldState 7))) = 2 \<and>
   fst (apply_calls (runCalls [ScrollIntoView, Replace 1 1 []] (Transaction_start twoFieldState 7)) ! 0) = ''$step'' \<and>
   fst (snd (apply_calls (runCalls [ScrollIntoView, Replace 1 1 []] (Transaction_start twoFieldState 7)) ! 0)) = Some 0 \<and>
   fieldVals (Transaction_apply (runCalls [ScrollIntoView, Replace 1 1 []] (Transaction_start twoFieldState 7))) ''$step''
     = Some 1"
proof -
  let ?t = "runCalls [ScrollIntoView, Replace 1 1 []] (Transaction_start twoFieldState 7)"
  have t: "?t = (Transaction_start twoFieldState 7)\<lparr>flags := 2\<rparr>"
    by (simp add: runCalls_def scrollIntoView_def replace_def Transaction_change_def
        FLAG_SCROLL_INTO_VIEW_def Transaction_start_def)
  have ch: "changes ?t = []" unfolding t by (simp add: Transaction_start_def)
  have ns: "\<not> selectionSet ?t"
    unfolding t by (simp add: selectionSet_def Transaction_start_def FLAG_SELECTION_SET_def)
  have fs: "[stepField, tallyField] = configFields (config twoFieldState)"
    by (simp add: twoFieldState_def)
  have d: "distinct (map key [stepField, tallyField])"
    by (simp add: stepField_def tallyField_def)
  note T = Transaction_apply_without_changes [OF refl ch ns fs]
  have frame: "doc (Transaction_apply ?t) = doc twoFieldState \<and>
      selection (Transaction_apply ?t) = selection twoFieldState \<and>
      length (apply_calls ?t) = length [stepField, tallyField]"
    using T by blast
  have "(0::nat) < length [stepField, tallyField]" by simp
  from T [THEN conjunct2, THEN conjunct2, THEN conjunct2, THEN conjunct2, rule_format, OF this]
  have "fst (apply_calls ?t ! 0) = ''$step'' \<and> fst (snd (apply_calls ?t ! 0)) = Some 0 \<and>
      fieldVals (Transaction_apply ?t) ''$step'' = Some 1"
    using d by (simp add: twoFieldState_def stepField_def)
  then show ?thesis
    using frame by (simp add: twoFieldState_def)
qed

section \<open>The selection check at state construction\<close>









end
